theory Spec2Isabelle
  imports Complex_Main "HOL-Library.Log_Nat"
begin

section \<open>SHA-256 over bit lists\<close>

text \<open>
  The notebook's \<^verbatim>\<open>hash(data)\<close> is \<^verbatim>\<open>hashlib.sha256(data.encode()).hexdigest()\<close>.
  SHA-256 is written out here after FIPS 180-4 so that digests can be computed inside the
  logic. A 32-bit word is a list of 32 bits, least significant bit first; a byte is a
  \<^typ>\<open>char\<close> (eight bits, least significant first).
\<close>

type_synonym w32 = "bool list"

fun xor_bits :: "w32 \<Rightarrow> w32 \<Rightarrow> w32" where
  "xor_bits (x # xs) (y # ys) = (x \<noteq> y) # xor_bits xs ys"
| "xor_bits xs ys = []"

fun and_bits :: "w32 \<Rightarrow> w32 \<Rightarrow> w32" where
  "and_bits (x # xs) (y # ys) = (x \<and> y) # and_bits xs ys"
| "and_bits xs ys = []"

text \<open>Ripple-carry addition; the carry out of the top bit is dropped (addition modulo \<open>2^32\<close>).\<close>

fun add_bits :: "bool \<Rightarrow> w32 \<Rightarrow> w32 \<Rightarrow> w32" where
  "add_bits c (x # xs) (y # ys) =
     ((x \<noteq> y) \<noteq> c) # add_bits ((x \<and> y) \<or> (c \<and> (x \<noteq> y))) xs ys"
| "add_bits c xs ys = []"

definition add32 :: "w32 \<Rightarrow> w32 \<Rightarrow> w32" where
  "add32 x y = add_bits False x y"

definition rotr :: "nat \<Rightarrow> w32 \<Rightarrow> w32" where
  "rotr n x = drop n x @ take n x"

definition shr :: "nat \<Rightarrow> w32 \<Rightarrow> w32" where
  "shr n x = drop n x @ replicate n False"

definition Ch :: "w32 \<Rightarrow> w32 \<Rightarrow> w32 \<Rightarrow> w32" where
  "Ch x y z = xor_bits (and_bits x y) (and_bits (map Not x) z)"

definition Maj :: "w32 \<Rightarrow> w32 \<Rightarrow> w32 \<Rightarrow> w32" where
  "Maj x y z = xor_bits (xor_bits (and_bits x y) (and_bits x z)) (and_bits y z)"

definition bsig0 :: "w32 \<Rightarrow> w32" where
  "bsig0 x = xor_bits (xor_bits (rotr 2 x) (rotr 13 x)) (rotr 22 x)"

definition bsig1 :: "w32 \<Rightarrow> w32" where
  "bsig1 x = xor_bits (xor_bits (rotr 6 x) (rotr 11 x)) (rotr 25 x)"

definition ssig0 :: "w32 \<Rightarrow> w32" where
  "ssig0 x = xor_bits (xor_bits (rotr 7 x) (rotr 18 x)) (shr 3 x)"

definition ssig1 :: "w32 \<Rightarrow> w32" where
  "ssig1 x = xor_bits (xor_bits (rotr 17 x) (rotr 19 x)) (shr 10 x)"

text \<open>Hexadecimal digits, four bits each, least significant bit first.\<close>

definition hex_bits :: "char \<Rightarrow> bool list" where
  "hex_bits c =
    (if c = CHR ''0'' then [False, False, False, False]
     else if c = CHR ''1'' then [True, False, False, False]
     else if c = CHR ''2'' then [False, True, False, False]
     else if c = CHR ''3'' then [True, True, False, False]
     else if c = CHR ''4'' then [False, False, True, False]
     else if c = CHR ''5'' then [True, False, True, False]
     else if c = CHR ''6'' then [False, True, True, False]
     else if c = CHR ''7'' then [True, True, True, False]
     else if c = CHR ''8'' then [False, False, False, True]
     else if c = CHR ''9'' then [True, False, False, True]
     else if c = CHR ''a'' then [False, True, False, True]
     else if c = CHR ''b'' then [True, True, False, True]
     else if c = CHR ''c'' then [False, False, True, True]
     else if c = CHR ''d'' then [True, False, True, True]
     else if c = CHR ''e'' then [False, True, True, True]
     else [True, True, True, True])"

definition of_hex :: "string \<Rightarrow> w32" where
  "of_hex s = concat (map hex_bits (rev s))"

fun hex_digit :: "bool list \<Rightarrow> char" where
  "hex_digit [b0, b1, b2, b3] =
     ''0123456789abcdef'' ! (of_bool b0 + 2 * of_bool b1 + 4 * of_bool b2 + 8 * of_bool b3)"
| "hex_digit bs = CHR ''?''"

function chunks :: "nat \<Rightarrow> 'a list \<Rightarrow> 'a list list" where
  "chunks n xs = (if n = 0 \<or> xs = [] then [] else take n xs # chunks n (drop n xs))"
  by pat_completeness auto
termination
  by (relation "measure (\<lambda>(n, xs). length xs)") auto

definition to_hex :: "w32 \<Rightarrow> string" where
  "to_hex w = rev (map hex_digit (chunks 4 w))"

definition K256 :: "w32 list" where
  "K256 = map of_hex [
   ''428a2f98'', ''71374491'', ''b5c0fbcf'', ''e9b5dba5'',
   ''3956c25b'', ''59f111f1'', ''923f82a4'', ''ab1c5ed5'',
   ''d807aa98'', ''12835b01'', ''243185be'', ''550c7dc3'',
   ''72be5d74'', ''80deb1fe'', ''9bdc06a7'', ''c19bf174'',
   ''e49b69c1'', ''efbe4786'', ''0fc19dc6'', ''240ca1cc'',
   ''2de92c6f'', ''4a7484aa'', ''5cb0a9dc'', ''76f988da'',
   ''983e5152'', ''a831c66d'', ''b00327c8'', ''bf597fc7'',
   ''c6e00bf3'', ''d5a79147'', ''06ca6351'', ''14292967'',
   ''27b70a85'', ''2e1b2138'', ''4d2c6dfc'', ''53380d13'',
   ''650a7354'', ''766a0abb'', ''81c2c92e'', ''92722c85'',
   ''a2bfe8a1'', ''a81a664b'', ''c24b8b70'', ''c76c51a3'',
   ''d192e819'', ''d6990624'', ''f40e3585'', ''106aa070'',
   ''19a4c116'', ''1e376c08'', ''2748774c'', ''34b0bcb5'',
   ''391c0cb3'', ''4ed8aa4a'', ''5b9cca4f'', ''682e6ff3'',
   ''748f82ee'', ''78a5636f'', ''84c87814'', ''8cc70208'',
   ''90befffa'', ''a4506ceb'', ''bef9a3f7'', ''c67178f2'']"

type_synonym sha_state = "w32 \<times> w32 \<times> w32 \<times> w32 \<times> w32 \<times> w32 \<times> w32 \<times> w32"

definition H256 :: sha_state where
  "H256 = (of_hex ''6a09e667'', of_hex ''bb67ae85'', of_hex ''3c6ef372'', of_hex ''a54ff53a'',
           of_hex ''510e527f'', of_hex ''9b05688c'', of_hex ''1f83d9ab'', of_hex ''5be0cd19'')"

text \<open>
  Message schedule: \<open>ws\<close> holds the words computed so far, newest first, so that
  \<open>ws ! (j - 1)\<close> is \<open>W[t - j]\<close>.
\<close>

primrec schedule :: "nat \<Rightarrow> w32 list \<Rightarrow> w32 list" where
  "schedule 0 ws = rev ws"
| "schedule (Suc n) ws =
     schedule n (add32 (add32 (add32 (ssig1 (ws ! 1)) (ws ! 6)) (ssig0 (ws ! 14))) (ws ! 15) # ws)"

fun round_out :: "w32 \<Rightarrow> w32 \<Rightarrow> sha_state \<Rightarrow> sha_state" where
  "round_out t1 t2 (a, b, c, d, e, f, g, h) = (add32 t1 t2, a, b, c, add32 d t1, e, f, g)"

fun round256 :: "sha_state \<Rightarrow> w32 \<times> w32 \<Rightarrow> sha_state" where
  "round256 (a, b, c, d, e, f, g, h) (k, w) =
     round_out (add32 (add32 (add32 (add32 h (bsig1 e)) (Ch e f g)) k) w)
               (add32 (bsig0 a) (Maj a b c)) (a, b, c, d, e, f, g, h)"

fun add_state :: "sha_state \<Rightarrow> sha_state \<Rightarrow> sha_state" where
  "add_state (a, b, c, d, e, f, g, h) (a', b', c', d', e', f', g', h') =
     (add32 a a', add32 b b', add32 c c', add32 d d',
      add32 e e', add32 f f', add32 g g', add32 h h')"

definition compress :: "sha_state \<Rightarrow> w32 list \<Rightarrow> sha_state" where
  "compress hs blk = add_state hs (foldl round256 hs (zip K256 (schedule 48 (rev blk))))"

subsection \<open>Bytes, padding and the hex digest\<close>

fun byte_bits :: "char \<Rightarrow> bool list" where
  "byte_bits (Char b0 b1 b2 b3 b4 b5 b6 b7) = [b0, b1, b2, b3, b4, b5, b6, b7]"

fun bits_byte :: "bool list \<Rightarrow> char" where
  "bits_byte [b0, b1, b2, b3, b4, b5, b6, b7] = Char b0 b1 b2 b3 b4 b5 b6 b7"
| "bits_byte bs = CHR 0x00"

text \<open>Four bytes, big-endian, as one word.\<close>

definition word_of_bytes :: "char list \<Rightarrow> w32" where
  "word_of_bytes cs = concat (map byte_bits (rev cs))"

text \<open>The binary counter used for the message length (least significant bit first).\<close>

fun inc_bits :: "bool list \<Rightarrow> bool list" where
  "inc_bits [] = []"
| "inc_bits (False # bs) = True # bs"
| "inc_bits (True # bs) = False # inc_bits bs"

primrec count_bits :: "'a list \<Rightarrow> bool list" where
  "count_bits [] = replicate 61 False"
| "count_bits (x # xs) = inc_bits (count_bits xs)"

text \<open>The 64-bit big-endian length field: eight times the number of bytes.\<close>

definition length_field :: "char list \<Rightarrow> char list" where
  "length_field msg = rev (map bits_byte (chunks 8 (False # False # False # count_bits msg)))"

text \<open>
  Padding: the byte \<open>0x80\<close>, then the least number of zero bytes that makes the total
  length a multiple of 64 once the eight length bytes are appended.
\<close>

definition pad :: "char list \<Rightarrow> char list" where
  "pad msg = msg @ [CHR 0x80] @ replicate ((119 - length msg mod 64) mod 64) (CHR 0x00)
               @ length_field msg"

text \<open>The padded message as 64-byte blocks of sixteen words each.\<close>

definition block_words :: "char list \<Rightarrow> w32 list" where
  "block_words blk = map word_of_bytes (chunks 4 blk)"

definition blocks_of :: "char list \<Rightarrow> w32 list list" where
  "blocks_of msg = map block_words (chunks 64 (pad msg))"

definition sha256 :: "char list \<Rightarrow> sha_state" where
  "sha256 msg = foldl compress H256 (blocks_of msg)"

fun hexdigest :: "sha_state \<Rightarrow> string" where
  "hexdigest (a, b, c, d, e, f, g, h) =
     to_hex a @ to_hex b @ to_hex c @ to_hex d @ to_hex e @ to_hex f @ to_hex g @ to_hex h"

text \<open>
  \<^verbatim>\<open>str.encode()\<close> is UTF-8. A \<^typ>\<open>string\<close> here stands for a Python string whose
  code points are below 256: a code point below 128 is one byte, one from 128 to 255 is
  the two bytes \<open>110000xx 10xxxxxx\<close>.
\<close>

fun encode_char :: "char \<Rightarrow> char list" where
  "encode_char (Char b0 b1 b2 b3 b4 b5 b6 b7) =
     (if b7 then [Char b6 b7 False False False False True True,
                  Char b0 b1 b2 b3 b4 b5 False True]
      else [Char b0 b1 b2 b3 b4 b5 b6 b7])"

definition encode :: "string \<Rightarrow> char list" where
  "encode s = concat (map encode_char s)"

definition hash :: "string \<Rightarrow> string" where
  "hash data = hexdigest (sha256 (encode data))"

section \<open>The Merkle tree of the notebook\<close>

text \<open>
  Python's list subscript: a negative index counts from the end, and an index outside
  \<open>[-len, len)\<close> raises \<^verbatim>\<open>IndexError\<close>.
\<close>

datatype error = IndexError

definition py_getitem :: "'a list \<Rightarrow> int \<Rightarrow> error + 'a" where
  "py_getitem xs i =
     (if 0 \<le> i \<and> i < int (length xs) then Inr (xs ! nat i)
      else if - int (length xs) \<le> i \<and> i < 0 then Inr (xs ! nat (int (length xs) + i))
      else Inl IndexError)"

text \<open>
  The object state: \<^verbatim>\<open>self.leaves\<close> (the leaf digests) and \<^verbatim>\<open>self.tree\<close>
  (the list of levels, level 0 first).
\<close>

record MerkleTree =
  leaves :: "string list"
  tree :: "string list list"

type_synonym merkle_proof = "(string \<times> string) list"

text \<open>
  The \<^verbatim>\<open>for i in range(0, len(current_level), 2)\<close> loop of \<^verbatim>\<open>build_tree\<close>:
  \<open>i\<close> is the loop index and \<open>next_level\<close> the list built so far.
\<close>

function build_level :: "string list \<Rightarrow> nat \<Rightarrow> string list \<Rightarrow> string list" where
  "build_level current_level i next_level =
     (if i < length current_level then
        (let left = current_level ! i;
             right = (if i + 1 < length current_level then current_level ! (i + 1) else left);
             combined = left @ right
         in build_level current_level (i + 2) (next_level @ [hash combined]))
      else next_level)"
  by pat_completeness auto
termination
  by (relation "measure (\<lambda>(current_level, i, next_level). length current_level - i)") auto

text \<open>
  \<^verbatim>\<open>build_tree\<close> appends to \<^verbatim>\<open>self.tree\<close> and calls itself on the new level; the
  list of levels is passed in and returned. The recursion has no bound of its own, so the
  result is an option: \<open>None\<close> stands for a call that does not return.
\<close>

partial_function (option) build_tree :: "string list list \<Rightarrow> string list \<Rightarrow> string list list option" where
  "build_tree tr current_level =
     (if length current_level = 1 then Some tr
      else build_tree (tr @ [build_level current_level 0 []]) (build_level current_level 0 []))"

declare build_tree.simps [code]

text \<open>The constructor \<^verbatim>\<open>MerkleTree(leaves)\<close>.\<close>

definition MerkleTree_init :: "string list \<Rightarrow> MerkleTree option" where
  "MerkleTree_init ls =
     (case build_tree [map hash ls] (map hash ls) of
        None \<Rightarrow> None
      | Some tr \<Rightarrow> Some \<lparr>leaves = map hash ls, tree = tr\<rparr>)"

text \<open>\<^verbatim>\<open>self.tree[-1][0]\<close>\<close>

definition get_root :: "MerkleTree \<Rightarrow> error + string" where
  "get_root self =
     (case py_getitem (tree self) (- 1) of
        Inl e \<Rightarrow> Inl e
      | Inr top_level \<Rightarrow> py_getitem top_level 0)"

text \<open>
  The loop of \<^verbatim>\<open>get_proof\<close> over \<^verbatim>\<open>range(len(self.tree) - 1)\<close>, with the loop
  variable \<open>level\<close> and the two variables it updates, \<open>current_index\<close> and \<open>proof\<close>.
  Python's \<^verbatim>\<open>%\<close> and \<^verbatim>\<open>//\<close> round towards minus infinity, as \<open>mod\<close> and \<open>div\<close>
  on \<^typ>\<open>int\<close> do.
\<close>

function get_proof_loop ::
  "string list list \<Rightarrow> nat \<Rightarrow> int \<Rightarrow> merkle_proof \<Rightarrow> error + merkle_proof" where
  "get_proof_loop tr level current_index proof =
     (if level < length tr - 1 then
        (let current_level = tr ! level;
             is_right = current_index mod 2;
             sibling_index = (if is_right \<noteq> 0 then current_index - 1 else current_index + 1)
         in if sibling_index < int (length current_level) then
              (case py_getitem current_level sibling_index of
                 Inl e \<Rightarrow> Inl e
               | Inr sibling \<Rightarrow>
                   get_proof_loop tr (level + 1) (current_index div 2)
                     (proof @ [(if is_right \<noteq> 0 then ''left'' else ''right'', sibling)]))
            else get_proof_loop tr (level + 1) (current_index div 2) proof)
      else Inr proof)"
  by pat_completeness auto
termination
  by (relation "measure (\<lambda>(tr, level, current_index, proof). length tr - level)") auto

definition get_proof :: "MerkleTree \<Rightarrow> int \<Rightarrow> error + merkle_proof" where
  "get_proof self leaf_index = get_proof_loop (tree self) 0 leaf_index []"

text \<open>The loop of \<^verbatim>\<open>verify_proof\<close> over the proof, carrying \<open>current_hash\<close>.\<close>

fun verify_loop :: "string \<Rightarrow> merkle_proof \<Rightarrow> string" where
  "verify_loop current_hash [] = current_hash"
| "verify_loop current_hash ((position, sibling_hash) # rest) =
     (let combined = (if position = ''left'' then sibling_hash @ current_hash
                      else current_hash @ sibling_hash)
      in verify_loop (hash combined) rest)"

definition verify_proof :: "MerkleTree \<Rightarrow> string \<Rightarrow> merkle_proof \<Rightarrow> error + bool" where
  "verify_proof self leaf proof =
     (case get_root self of
        Inl e \<Rightarrow> Inl e
      | Inr root_hash \<Rightarrow> Inr (verify_loop (hash leaf) proof = root_hash))"

text \<open>
  The notebook's usage, as one function: build the tree over \<open>ls\<close>, ask for the proof
  of leaf \<open>i\<close>, and verify \<open>ls[i]\<close> with it.
\<close>

definition open_verify :: "string list \<Rightarrow> int \<Rightarrow> (error + bool) option" where
  "open_verify ls i =
     (case MerkleTree_init ls of
        None \<Rightarrow> None
      | Some t \<Rightarrow>
          Some (case get_proof t i of
                  Inl e \<Rightarrow> Inl e
                | Inr p \<Rightarrow>
                    (case py_getitem ls i of
                       Inl e \<Rightarrow> Inl e
                     | Inr leaf \<Rightarrow> verify_proof t leaf p)))"

section \<open>The verifier as the specification words it\<close>

text \<open>
  The specification's verifier: start from the digest of the row, and for each
  \<open>(side, sibling)\<close> of the proof, in order, replace the current digest by the hash of
  sibling and current (sibling first when the side is \<open>left\<close>, current first otherwise);
  succeed exactly when the last digest is the root.
\<close>

definition fold_step :: "string \<Rightarrow> string \<times> string \<Rightarrow> string" where
  "fold_step current entry =
     (if fst entry = ''left'' then hash (snd entry @ current) else hash (current @ snd entry))"

definition verify_fold :: "string \<Rightarrow> string \<Rightarrow> merkle_proof \<Rightarrow> bool" where
  "verify_fold root_hash leaf proof = (foldl fold_step (hash leaf) proof = root_hash)"

section \<open>Two example trees\<close>

text \<open>
  The trees over the leaves A, B, C and over the notebook's leaves A, B, C, D, with every
  digest written out.
\<close>

definition tree_ABC :: MerkleTree where
  "tree_ABC =
     \<lparr>leaves = [''559aead08264d5795d3909718cdd05abd49572e84fe55590eef31a88a08fdffd'',
                ''df7e70e5021544f4834bbee64a9e3789febc4be81470df629cad6ddb03320a5c'',
                ''6b23c0d5f35d1b11f9b683f0b0a617355deb11277d91ae091d399c655b87940d''],
      tree = [[''559aead08264d5795d3909718cdd05abd49572e84fe55590eef31a88a08fdffd'',
               ''df7e70e5021544f4834bbee64a9e3789febc4be81470df629cad6ddb03320a5c'',
               ''6b23c0d5f35d1b11f9b683f0b0a617355deb11277d91ae091d399c655b87940d''],
              [''b30ab174f7459cdd40a3acdf15d0c9444fec2adcfb9d579aa154c084885edd0a'',
               ''84a3defdb78365472865549822bb4e2fc0a1d50a9a73199251e0320dff0cef03''],
              [''bd144551df2d311a947adbb0fc4b4bfa7bd76ae0e60095d88a8f79a3e3986af6'']]\<rparr>"

definition tree_ABCD :: MerkleTree where
  "tree_ABCD =
     \<lparr>leaves = [''559aead08264d5795d3909718cdd05abd49572e84fe55590eef31a88a08fdffd'',
                ''df7e70e5021544f4834bbee64a9e3789febc4be81470df629cad6ddb03320a5c'',
                ''6b23c0d5f35d1b11f9b683f0b0a617355deb11277d91ae091d399c655b87940d'',
                ''3f39d5c348e5b79d06e842c114e6cc571583bbf44e4b0ebfda1a01ec05745d43''],
      tree = [[''559aead08264d5795d3909718cdd05abd49572e84fe55590eef31a88a08fdffd'',
               ''df7e70e5021544f4834bbee64a9e3789febc4be81470df629cad6ddb03320a5c'',
               ''6b23c0d5f35d1b11f9b683f0b0a617355deb11277d91ae091d399c655b87940d'',
               ''3f39d5c348e5b79d06e842c114e6cc571583bbf44e4b0ebfda1a01ec05745d43''],
              [''b30ab174f7459cdd40a3acdf15d0c9444fec2adcfb9d579aa154c084885edd0a'',
               ''26b5aabe804fe5d533c663dea833e8078188376ce5ca2b5c3371d09ef6b0657b''],
              [''50a504831bd50fee3581d287168a85a8dcdd6aa777ffd0fe35e37290268a0153'']]\<rparr>"

section \<open>Functions used in the proofs\<close>

text \<open>
  What one pass of \<^verbatim>\<open>build_tree\<close>'s loop computes, by recursion on the level: pairs are
  hashed together, and a last node without a partner is hashed with itself.
\<close>

fun pair_up :: "string list \<Rightarrow> string list" where
  "pair_up [] = []"
| "pair_up [l] = [hash (l @ l)]"
| "pair_up (l # r # rest) = hash (l @ r) # pair_up rest"

text \<open>
  The levels above a given level, as a total function: it stops at a level of length at
  most one. \<open>build_tree\<close> computes it on every non-empty level and does not return on the
  empty one.
\<close>

function upper_levels :: "string list \<Rightarrow> string list list" where
  "upper_levels lvl = (if length lvl \<le> 1 then [] else pair_up lvl # upper_levels (pair_up lvl))"
  by pat_completeness auto
termination
proof (relation "measure length")
  show "wf (measure length)" by simp
next
  fix lvl :: "string list"
  assume "\<not> length lvl \<le> 1"
  moreover have "length (pair_up lvl) = (length lvl + 1) div 2"
    by (induction lvl rule: pair_up.induct) auto
  ultimately show "(pair_up lvl, lvl) \<in> measure length" by simp
qed

text \<open>
  The loops and \<open>upper_levels\<close> are unfolded by hand in the proofs below, one iteration
  at a time.
\<close>

declare build_level.simps [simp del]
declare get_proof_loop.simps [simp del]
declare upper_levels.simps [simp del]

section \<open>The shape of the tree\<close>

lemma drop_step2: "Suc i < length xs \<Longrightarrow> drop i xs = xs ! i # xs ! Suc i # drop (Suc (Suc i)) xs"
  by (simp add: Cons_nth_drop_Suc)

lemma drop_last1: "i < length xs \<Longrightarrow> \<not> Suc i < length xs \<Longrightarrow> drop i xs = [xs ! i]"
  by (metis Cons_nth_drop_Suc drop_all not_less)

lemma build_level_pair_up: "build_level lvl i acc = acc @ pair_up (drop i lvl)"
proof (induction lvl i acc rule: build_level.induct)
  case (1 lvl i acc)
  show ?case
  proof (cases "i < length lvl")
    case False
    then show ?thesis by (simp add: build_level.simps [of lvl i acc])
  next
    case True
    show ?thesis
    proof (cases "Suc i < length lvl")
      case True
      with 1 \<open>i < length lvl\<close> show ?thesis
        by (simp add: build_level.simps [of lvl i acc] drop_step2 Let_def)
    next
      case False
      have "drop (i + 2) lvl = []" using False by simp
      with 1 \<open>i < length lvl\<close> False show ?thesis
        by (simp add: build_level.simps [of lvl i acc] drop_last1 Let_def)
    qed
  qed
qed

lemma length_pair_up: "length (pair_up xs) = (length xs + 1) div 2"
  by (induction xs rule: pair_up.induct) auto

lemma pair_up_nth:
  "2 * m + 1 < length xs \<Longrightarrow> pair_up xs ! m = hash (xs ! (2 * m) @ xs ! (2 * m + 1))"
proof (induction xs arbitrary: m rule: pair_up.induct)
  case 1
  then show ?case by simp
next
  case (2 l)
  then show ?case by simp
next
  case (3 l r rest)
  show ?case
  proof (cases m)
    case 0
    then show ?thesis by simp
  next
    case (Suc j)
    with 3(2) have "2 * j + 1 < length rest" by simp
    from 3(1) [OF this] Suc show ?thesis by simp
  qed
qed

lemma pair_up_dup_last: "odd (length xs) \<Longrightarrow> pair_up (xs @ [last xs]) = pair_up xs"
proof (induction xs rule: pair_up.induct)
  case 1
  then show ?case by simp
next
  case (2 l)
  then show ?case by simp
next
  case (3 l r rest)
  then have "rest \<noteq> []" by auto
  with 3 show ?case by simp
qed

lemma upper_levels_single [simp]: "upper_levels [x] = []"
  by (simp add: upper_levels.simps [of "[x]"])

lemma upper_levels_step: "2 \<le> length lvl \<Longrightarrow> upper_levels lvl = pair_up lvl # upper_levels (pair_up lvl)"
  by (simp add: upper_levels.simps [of lvl])

text \<open>
  \<^verbatim>\<open>build_tree\<close> returns on every non-empty level, with the levels of
  \<open>upper_levels\<close> appended, and does not return on the empty level.
\<close>

lemma build_tree_Some: "lvl \<noteq> [] \<Longrightarrow> build_tree tr lvl = Some (tr @ upper_levels lvl)"
proof (induction lvl arbitrary: tr rule: upper_levels.induct)
  case (1 lvl)
  show ?case
  proof (cases "length lvl = 1")
    case True
    then show ?thesis
      by (simp add: build_tree.simps [of tr lvl] upper_levels.simps [of lvl])
  next
    case False
    with 1(2) have big: "\<not> length lvl \<le> 1" by (cases lvl) auto
    then have "pair_up lvl \<noteq> []"
      using length_pair_up [of lvl] by (cases "pair_up lvl") auto
    with 1(1) [OF big] have "build_tree (tr @ [pair_up lvl]) (pair_up lvl)
        = Some ((tr @ [pair_up lvl]) @ upper_levels (pair_up lvl))" by blast
    with False big show ?thesis
      by (simp add: build_tree.simps [of tr lvl] upper_levels.simps [of lvl] build_level_pair_up)
  qed
qed

lemma build_tree_returns_nonempty:
  assumes "build_tree tr lvl = Some y"
  shows "lvl \<noteq> []"
proof (rule build_tree.raw_induct [where P = "\<lambda>t cl r. cl \<noteq> []", OF _ assms])
  fix f :: "string list list \<Rightarrow> string list \<Rightarrow> string list list option"
  fix tr0 :: "string list list" and cl :: "string list" and y0 :: "string list list"
  assume IH: "\<And>t b r. f t b = Some r \<Longrightarrow> b \<noteq> []"
  assume step: "(if length cl = 1 then Some tr0
      else f (tr0 @ [build_level cl 0 []]) (build_level cl 0 [])) = Some y0"
  show "cl \<noteq> []"
  proof (cases "length cl = 1")
    case True then show ?thesis by auto
  next
    case False
    with step have "f (tr0 @ [build_level cl 0 []]) (build_level cl 0 []) = Some y0" by simp
    from IH [OF this] have "pair_up cl \<noteq> []" by (simp add: build_level_pair_up)
    then show ?thesis by auto
  qed
qed

lemma build_tree_Nil: "build_tree tr [] = None"
  using build_tree_returns_nonempty [of tr "[]"] by (cases "build_tree tr []") auto

lemma MerkleTree_init_Some:
  "ls \<noteq> [] \<Longrightarrow> MerkleTree_init ls = Some \<lparr>leaves = map hash ls, tree = map hash ls # upper_levels (map hash ls)\<rparr>"
  by (simp add: MerkleTree_init_def build_tree_Some)

lemma MerkleTree_init_Nil: "MerkleTree_init [] = None"
  by (simp add: MerkleTree_init_def build_tree_Nil)

lemma init1: "MerkleTree_init [a] = Some \<lparr>leaves = [hash a], tree = [[hash a]]\<rparr>"
  by (simp add: MerkleTree_init_Some)

lemma init2: "MerkleTree_init [a, b] =
   Some \<lparr>leaves = [hash a, hash b], tree = [[hash a, hash b], [hash (hash a @ hash b)]]\<rparr>"
  by (simp add: MerkleTree_init_Some upper_levels_step)

lemma init3: "MerkleTree_init [a, b, c] =
   Some \<lparr>leaves = [hash a, hash b, hash c],
         tree = [[hash a, hash b, hash c],
                 [hash (hash a @ hash b), hash (hash c @ hash c)],
                 [hash (hash (hash a @ hash b) @ hash (hash c @ hash c))]]\<rparr>"
  by (simp add: MerkleTree_init_Some upper_levels_step)

lemma init4: "MerkleTree_init [a, b, c, d] =
   Some \<lparr>leaves = [hash a, hash b, hash c, hash d],
         tree = [[hash a, hash b, hash c, hash d],
                 [hash (hash a @ hash b), hash (hash c @ hash d)],
                 [hash (hash (hash a @ hash b) @ hash (hash c @ hash d))]]\<rparr>"
  by (simp add: MerkleTree_init_Some upper_levels_step)

lemma last_level_single: "lvl \<noteq> [] \<Longrightarrow> length (last (lvl # upper_levels lvl)) = 1"
proof (induction lvl rule: upper_levels.induct)
  case (1 lvl)
  show ?case
  proof (cases "length lvl \<le> 1")
    case True
    with 1(2) have "length lvl = 1" by (cases lvl) auto
    with True show ?thesis by (simp add: upper_levels.simps [of lvl])
  next
    case False
    then have "pair_up lvl \<noteq> []"
      using length_pair_up [of lvl] by (cases "pair_up lvl") auto
    with 1(1) False show ?thesis by (simp add: upper_levels.simps [of lvl])
  qed
qed

lemma top_two_levels:
  "2 \<le> length lvl \<Longrightarrow>
     \<exists>a b. (lvl # upper_levels lvl) ! (length (upper_levels lvl) - 1) = [a, b]
          \<and> last (lvl # upper_levels lvl) = [hash (a @ b)]
          \<and> upper_levels lvl \<noteq> []"
proof (induction lvl rule: upper_levels.induct)
  case (1 lvl)
  from 1(2) have big: "\<not> length lvl \<le> 1" by simp
  have step: "upper_levels lvl = pair_up lvl # upper_levels (pair_up lvl)"
    using 1(2) by (rule upper_levels_step)
  show ?case
  proof (cases "2 \<le> length (pair_up lvl)")
    case True
    from 1(1) [OF big True] obtain a b where
      ab: "(pair_up lvl # upper_levels (pair_up lvl)) ! (length (upper_levels (pair_up lvl)) - 1) = [a, b]"
          "last (pair_up lvl # upper_levels (pair_up lvl)) = [hash (a @ b)]"
          "upper_levels (pair_up lvl) \<noteq> []" by blast
    from ab(3) have pos: "0 < length (upper_levels (pair_up lvl))" by simp
    have "(lvl # upper_levels lvl) ! (length (upper_levels lvl) - 1) = [a, b]"
      using ab(1) pos by (simp add: step)
    moreover have "last (lvl # upper_levels lvl) = [hash (a @ b)]"
      using ab(2) by (simp add: step)
    ultimately show ?thesis by (simp add: step)
  next
    case False
    with 1(2) have "length lvl = 2" using length_pair_up [of lvl] by arith
    then obtain a b where lvl: "lvl = [a, b]"
      by (cases lvl; cases "tl lvl") auto
    then show ?thesis by (simp add: upper_levels_step)
  qed
qed

lemma levels_adjacent:
  "k + 1 < length (lvl # upper_levels lvl) \<Longrightarrow>
     (lvl # upper_levels lvl) ! (k + 1) = pair_up ((lvl # upper_levels lvl) ! k)
     \<and> 2 \<le> length ((lvl # upper_levels lvl) ! k)"
proof (induction lvl arbitrary: k rule: upper_levels.induct)
  case (1 lvl)
  from 1(2) have "upper_levels lvl \<noteq> []" by auto
  then have big: "\<not> length lvl \<le> 1" by (auto simp: upper_levels.simps [of lvl] split: if_splits)
  then have step: "upper_levels lvl = pair_up lvl # upper_levels (pair_up lvl)"
    by (simp add: upper_levels_step)
  show ?case
  proof (cases k)
    case 0
    with big show ?thesis by (simp add: step)
  next
    case (Suc j)
    with 1(2) have "j + 1 < length (pair_up lvl # upper_levels (pair_up lvl))"
      by (simp add: step)
    from 1(1) [OF big this] Suc show ?thesis by (simp add: step)
  qed
qed

lemma length_upper_levels: "length (upper_levels lvl) = ceillog2 (length lvl)"
proof (induction lvl rule: upper_levels.induct)
  case (1 lvl)
  show ?case
  proof (cases "length lvl \<le> 1")
    case True
    then show ?thesis by (simp add: upper_levels.simps [of lvl])
  next
    case False
    with 1 have "length (upper_levels (pair_up lvl)) = ceillog2 ((length lvl + 1) div 2)"
      by (simp add: length_pair_up)
    with False show ?thesis
      by (simp add: upper_levels.simps [of lvl] ceillog2_rec [of "length lvl"])
  qed
qed

lemma ceiling_half: "\<lceil>real n / 2\<rceil> = int ((n + 1) div 2)"
proof -
  have "\<lceil>real n / 2\<rceil> = \<lceil>real_of_int (int n) / real_of_int 2\<rceil>" by simp
  also have "\<dots> = - ((- int n) div 2)" by (rule ceiling_divide_eq_div)
  also have "\<dots> = int ((n + 1) div 2)" by presburger
  finally show ?thesis .
qed

section \<open>The root\<close>

lemma py_getitem_last: "xs \<noteq> [] \<Longrightarrow> py_getitem xs (- 1) = Inr (last xs)"
  by (cases xs rule: rev_cases) (auto simp: py_getitem_def nth_append)

lemma py_getitem_0: "xs \<noteq> [] \<Longrightarrow> py_getitem xs 0 = Inr (hd xs)"
  by (cases xs) (auto simp: py_getitem_def)

lemma get_root_levels:
  "lvl \<noteq> [] \<Longrightarrow> get_root \<lparr>leaves = lvl, tree = lvl # upper_levels lvl\<rparr>
      = Inr (hd (last (lvl # upper_levels lvl)))"
proof -
  assume "lvl \<noteq> []"
  then have "length (last (lvl # upper_levels lvl)) = 1" by (rule last_level_single)
  then have "last (lvl # upper_levels lvl) \<noteq> []" by auto
  then show ?thesis
    unfolding get_root_def by (simp add: py_getitem_last py_getitem_0 del: last.simps)
qed

section \<open>The proof loop\<close>

text \<open>
  \<^verbatim>\<open>get_proof\<close> reads only inside a level when the index is not negative, so it
  returns a proof, with at most one entry per level below the root.
\<close>

lemma get_proof_loop_nonneg:
  "0 \<le> idx \<Longrightarrow>
     \<exists>p. get_proof_loop tr level idx acc = Inr p \<and> length p \<le> length acc + (length tr - 1 - level)"
proof (induction tr level idx acc rule: get_proof_loop.induct)
  case (1 tr level idx acc)
  show ?case
  proof (cases "level < length tr - 1")
    case False
    then show ?thesis by (simp add: get_proof_loop.simps [of tr level idx acc])
  next
    case True
    let ?sib = "if idx mod 2 \<noteq> 0 then idx - 1 else idx + 1"
    from 1(3) have sib0: "0 \<le> ?sib" by presburger
    from 1(3) have half: "0 \<le> idx div 2" by simp
    show ?thesis
    proof (cases "?sib < int (length (tr ! level))")
      case inr: True
      with sib0 have get: "py_getitem (tr ! level) ?sib = Inr ((tr ! level) ! nat ?sib)"
        by (simp add: py_getitem_def)
      let ?acc' = "acc @ [(if idx mod 2 \<noteq> 0 then ''left'' else ''right'', (tr ! level) ! nat ?sib)]"
      from 1(1) [OF True refl refl refl inr get half] obtain p where
        p: "get_proof_loop tr (level + 1) (idx div 2) ?acc' = Inr p"
           "length p \<le> length ?acc' + (length tr - 1 - (level + 1))" by blast
      have "get_proof_loop tr level idx acc = get_proof_loop tr (level + 1) (idx div 2) ?acc'"
        using True inr get by (simp add: get_proof_loop.simps [of tr level idx acc] Let_def)
      with p True show ?thesis by auto
    next
      case out: False
      from 1(2) [OF True refl refl refl out half] obtain p where
        p: "get_proof_loop tr (level + 1) (idx div 2) acc = Inr p"
           "length p \<le> length acc + (length tr - 1 - (level + 1))" by blast
      have "get_proof_loop tr level idx acc = get_proof_loop tr (level + 1) (idx div 2) acc"
        using True out by (simp add: get_proof_loop.simps [of tr level idx acc] Let_def)
      with p True show ?thesis by auto
    qed
  qed
qed

text \<open>
  At the last node of a level of odd length the sibling index is the length of the level:
  the guard fails and the loop goes on with the proof unchanged.
\<close>

lemma get_proof_loop_skips_unpaired:
  assumes "level < length tr - 1" and "odd (length (tr ! level))"
  shows "get_proof_loop tr level (int (length (tr ! level)) - 1) acc
           = get_proof_loop tr (level + 1) ((int (length (tr ! level)) - 1) div 2) acc"
proof -
  from assms(2) have "(int (length (tr ! level)) - 1) mod 2 = 0" by presburger
  with assms(1) show ?thesis
    by (simp add: get_proof_loop.simps [of tr level "int (length (tr ! level)) - 1" acc] Let_def)
qed

lemma get_proof_loop_step:
  assumes "level < length tr - 1" and "0 \<le> idx"
  shows "\<exists>acc'. get_proof_loop tr level idx acc = get_proof_loop tr (level + 1) (idx div 2) acc'
                \<and> length acc' \<le> length acc + 1"
proof -
  let ?sib = "if idx mod 2 \<noteq> 0 then idx - 1 else idx + 1"
  from assms(2) have sib0: "0 \<le> ?sib" by presburger
  show ?thesis
  proof (cases "?sib < int (length (tr ! level))")
    case True
    with sib0 have "py_getitem (tr ! level) ?sib = Inr ((tr ! level) ! nat ?sib)"
      by (simp add: py_getitem_def)
    with assms(1) True have "get_proof_loop tr level idx acc
        = get_proof_loop tr (level + 1) (idx div 2)
            (acc @ [(if idx mod 2 \<noteq> 0 then ''left'' else ''right'', (tr ! level) ! nat ?sib)])"
      by (simp add: get_proof_loop.simps [of tr level idx acc] Let_def)
    then show ?thesis by (intro exI conjI) (assumption, simp)
  next
    case False
    with assms(1) have "get_proof_loop tr level idx acc
        = get_proof_loop tr (level + 1) (idx div 2) acc"
      by (simp add: get_proof_loop.simps [of tr level idx acc] Let_def)
    then show ?thesis by (intro exI conjI) (assumption, simp)
  qed
qed

lemma get_proof_loop_shorter:
  assumes "k < length tr - 1" and "odd (length (tr ! k))"
  shows "0 \<le> idx \<Longrightarrow> level + d = k \<Longrightarrow> idx div 2 ^ d = int (length (tr ! k)) - 1 \<Longrightarrow>
     \<exists>p. get_proof_loop tr level idx acc = Inr p \<and> length p < length acc + (length tr - 1 - level)"
proof (induction d arbitrary: level idx acc)
  case 0
  then have lv: "level = k" and idx: "idx = int (length (tr ! k)) - 1" by simp_all
  have "get_proof_loop tr level idx acc = get_proof_loop tr (k + 1) (idx div 2) acc"
    unfolding lv idx using assms by (rule get_proof_loop_skips_unpaired)
  moreover from 0(1) have "0 \<le> idx div 2" by simp
  from get_proof_loop_nonneg [OF this, of tr "k + 1" acc] obtain p where
    "get_proof_loop tr (k + 1) (idx div 2) acc = Inr p"
    "length p \<le> length acc + (length tr - 1 - (k + 1))" by blast
  ultimately show ?case using assms(1) lv by auto
next
  case (Suc d)
  then have lt: "level < length tr - 1" using assms(1) by simp
  from get_proof_loop_step [OF lt Suc.prems(1), of acc] obtain acc' where
    acc': "get_proof_loop tr level idx acc = get_proof_loop tr (level + 1) (idx div 2) acc'"
          "length acc' \<le> length acc + 1" by blast
  have "idx div 2 div 2 ^ d = idx div 2 ^ Suc d"
    by (simp add: zdiv_zmult2_eq)
  with Suc.prems have "idx div 2 div 2 ^ d = int (length (tr ! k)) - 1" by simp
  moreover from Suc.prems have "0 \<le> idx div 2" "level + 1 + d = k" by simp_all
  ultimately obtain p where
    p: "get_proof_loop tr (level + 1) (idx div 2) acc' = Inr p"
       "length p < length acc' + (length tr - 1 - (level + 1))"
    using Suc.IH [of "idx div 2" "level + 1" acc'] by blast
  with acc' lt show ?case by auto
qed

text \<open>
  So the proof of a leaf whose path runs through the last node of an odd level has fewer
  entries than there are levels below the root.
\<close>

lemma unpaired_node_gets_no_entry:
  assumes "MerkleTree_init ls = Some t"
      and "k < length (tree t) - 1" and "odd (length (tree t ! k))"
      and "0 \<le> i" and "i div 2 ^ k = int (length (tree t ! k)) - 1"
  shows "get_proof_loop (tree t) k (int (length (tree t ! k)) - 1) acc
           = get_proof_loop (tree t) (k + 1) ((int (length (tree t ! k)) - 1) div 2) acc
         \<and> (\<exists>p. get_proof t i = Inr p \<and> length p < length (tree t) - 1)"
proof
  show "get_proof_loop (tree t) k (int (length (tree t ! k)) - 1) acc
           = get_proof_loop (tree t) (k + 1) ((int (length (tree t ! k)) - 1) div 2) acc"
    using assms(2,3) by (rule get_proof_loop_skips_unpaired)
  from get_proof_loop_shorter [OF assms(2,3,4) _ assms(5), of 0 "[]"]
  show "\<exists>p. get_proof t i = Inr p \<and> length p < length (tree t) - 1"
    by (simp add: get_proof_def)
qed

text \<open>
  On a path that never runs through the last node of an odd level, every level adds the
  sibling that \<^verbatim>\<open>build_tree\<close> hashed the node with, and the verifier's loop climbs to the
  node above.
\<close>

lemma get_proof_loop_paired:
  assumes adj: "\<And>j. level0 \<le> j \<Longrightarrow> j + 1 < length tr \<Longrightarrow> tr ! (j + 1) = pair_up (tr ! j)"
  shows "length tr - 1 - level = d \<Longrightarrow> level0 \<le> level \<Longrightarrow> level < length tr \<Longrightarrow>
     0 \<le> idx \<Longrightarrow> idx < int (length (tr ! level)) \<Longrightarrow>
     (\<And>j. level \<le> j \<Longrightarrow> j + 1 < length tr \<Longrightarrow>
         \<not> (odd (length (tr ! j)) \<and> idx div 2 ^ (j - level) = int (length (tr ! j)) - 1)) \<Longrightarrow>
     \<exists>q. get_proof_loop tr level idx acc = Inr (acc @ q)
        \<and> verify_loop (tr ! level ! nat idx) q = last tr ! nat (idx div 2 ^ d)"
proof (induction d arbitrary: level idx acc)
  case 0
  then have top: "level = length tr - 1" by simp
  then have "\<not> level < length tr - 1" by simp
  then have "get_proof_loop tr level idx acc = Inr acc"
    by (subst get_proof_loop.simps) simp
  moreover from top 0(3) have "last tr = tr ! level"
    by (cases tr rule: rev_cases) (auto simp: nth_append)
  ultimately show ?case by simp
next
  case (Suc d)
  then have lt: "level < length tr - 1" and lt': "level + 1 < length tr" by simp_all
  let ?cur = "tr ! level"
  let ?i = "nat idx"
  from Suc.prems have i: "?i < length ?cur" "idx = int ?i" by simp_all
  have nxt: "tr ! (level + 1) = pair_up ?cur" using adj [OF Suc.prems(2) lt'] .
  have unp: "\<not> (odd (length ?cur) \<and> idx = int (length ?cur) - 1)"
    using Suc.prems(6) [of level] lt' by simp
  have half0: "0 \<le> idx div 2" using Suc.prems(4) by simp
  have half_lt: "idx div 2 < int (length (tr ! (level + 1)))"
    using Suc.prems(4,5) unfolding nxt length_pair_up by linarith
  have rest: "\<And>j. level + 1 \<le> j \<Longrightarrow> j + 1 < length tr \<Longrightarrow>
         \<not> (odd (length (tr ! j)) \<and> idx div 2 div 2 ^ (j - (level + 1)) = int (length (tr ! j)) - 1)"
  proof -
    fix j assume j: "level + 1 \<le> j" "j + 1 < length tr"
    then have "j - level = Suc (j - (level + 1))" by simp
    then have "idx div 2 div 2 ^ (j - (level + 1)) = idx div 2 ^ (j - level)"
      by (simp add: zdiv_zmult2_eq)
    with Suc.prems(6) [of j] j
    show "\<not> (odd (length (tr ! j)) \<and> idx div 2 div 2 ^ (j - (level + 1)) = int (length (tr ! j)) - 1)"
      by simp
  qed
  have d': "length tr - 1 - (level + 1) = d" using Suc.prems(1) by simp
  have l0: "level0 \<le> level + 1" using Suc.prems(2) by simp
  have top_idx: "idx div 2 div 2 ^ d = idx div 2 ^ Suc d" by (simp add: zdiv_zmult2_eq)
  show ?case
  proof (cases "idx mod 2 = 0")
    case even: True
    then have ev: "even ?i" using i(2) by presburger
    have sib_in: "idx + 1 < int (length ?cur)"
    proof (rule ccontr)
      assume "\<not> idx + 1 < int (length ?cur)"
      with Suc.prems(5) have "idx = int (length ?cur) - 1" by simp
      moreover with even have "odd (length ?cur)" by presburger
      ultimately show False using unp by simp
    qed
    then have get: "py_getitem ?cur (idx + 1) = Inr (?cur ! (?i + 1))"
      using Suc.prems(4) by (simp add: py_getitem_def nat_add_distrib)
    let ?e = "(''right'', ?cur ! (?i + 1))"
    have step: "get_proof_loop tr level idx acc
        = get_proof_loop tr (level + 1) (idx div 2) (acc @ [?e])"
      using lt even sib_in get by (simp add: get_proof_loop.simps [of tr level idx acc] Let_def)
    from Suc.IH [OF d' l0 lt' half0 half_lt rest, of "acc @ [?e]"] obtain q where
      q: "get_proof_loop tr (level + 1) (idx div 2) (acc @ [?e]) = Inr ((acc @ [?e]) @ q)"
         "verify_loop (tr ! (level + 1) ! nat (idx div 2)) q = last tr ! nat (idx div 2 div 2 ^ d)"
      by blast
    from ev obtain m where m: "?i = 2 * m" by (auto elim: evenE)
    with sib_in i(2) have "2 * m + 1 < length ?cur" by simp
    from pair_up_nth [OF this] have "pair_up ?cur ! m = hash (?cur ! ?i @ ?cur ! (?i + 1))"
      using m by simp
    moreover have "nat (idx div 2) = m" using m i(2) by simp
    ultimately have "verify_loop (?cur ! ?i) (?e # q) = last tr ! nat (idx div 2 ^ Suc d)"
      using q(2) nxt top_idx by simp
    with step q(1) show ?thesis by (intro exI [of _ "?e # q"]) simp
  next
    case odd: False
    then have od: "odd ?i" using i(2) by presburger
    then have pos: "0 < ?i" by (cases ?i) auto
    have sib_in: "idx - 1 < int (length ?cur)" using Suc.prems(5) by simp
    have get: "py_getitem ?cur (idx - 1) = Inr (?cur ! (?i - 1))"
      using pos i Suc.prems(4) by (simp add: py_getitem_def nat_diff_distrib)
    let ?e = "(''left'', ?cur ! (?i - 1))"
    have step: "get_proof_loop tr level idx acc
        = get_proof_loop tr (level + 1) (idx div 2) (acc @ [?e])"
      using lt odd sib_in get by (simp add: get_proof_loop.simps [of tr level idx acc] Let_def)
    from Suc.IH [OF d' l0 lt' half0 half_lt rest, of "acc @ [?e]"] obtain q where
      q: "get_proof_loop tr (level + 1) (idx div 2) (acc @ [?e]) = Inr ((acc @ [?e]) @ q)"
         "verify_loop (tr ! (level + 1) ! nat (idx div 2)) q = last tr ! nat (idx div 2 div 2 ^ d)"
      by blast
    from od obtain m where m: "?i = 2 * m + 1" by (auto elim: oddE)
    with i(1) have "2 * m + 1 < length ?cur" by simp
    from pair_up_nth [OF this] have "pair_up ?cur ! m = hash (?cur ! (?i - 1) @ ?cur ! ?i)"
      using m by simp
    moreover have "nat (idx div 2) = m" using m i(2) by simp
    ultimately have "verify_loop (?cur ! ?i) (?e # q) = last tr ! nat (idx div 2 ^ Suc d)"
      using q(2) nxt top_idx by simp
    with step q(1) show ?thesis by (intro exI [of _ "?e # q"]) simp
  qed
qed

text \<open>
  So the round trip succeeds for every leaf whose path avoids the unpaired nodes.
\<close>

lemma round_trip_when_paired:
  assumes init: "MerkleTree_init ls = Some t"
      and i0: "0 \<le> i" and i1: "i < int (length ls)"
      and paired: "\<And>k. k + 1 < length (tree t) \<Longrightarrow>
            \<not> (odd (length (tree t ! k)) \<and> i div 2 ^ k = int (length (tree t ! k)) - 1)"
  shows "open_verify ls i = Some (Inr True)"
proof -
  let ?lvl = "map hash ls"
  let ?L = "?lvl # upper_levels ?lvl"
  let ?d = "length ?L - 1"
  from i0 i1 have ne: "ls \<noteq> []" by auto
  with init have t: "t = \<lparr>leaves = ?lvl, tree = ?L\<rparr>" by (simp add: MerkleTree_init_Some)
  have adj: "\<And>j. 0 \<le> j \<Longrightarrow> j + 1 < length ?L \<Longrightarrow> ?L ! (j + 1) = pair_up (?L ! j)"
    using levels_adjacent [of _ ?lvl] by blast
  have cond: "\<And>j. 0 \<le> j \<Longrightarrow> j + 1 < length ?L \<Longrightarrow>
      \<not> (odd (length (?L ! j)) \<and> i div 2 ^ (j - 0) = int (length (?L ! j)) - 1)"
    using paired unfolding t by simp
  have in0: "i < int (length (?L ! 0))" using i1 by simp
  from get_proof_loop_paired [of 0 ?L 0 ?d i "[]", OF adj _ _ _ i0 in0 cond]
  obtain q where
    q: "get_proof_loop ?L 0 i [] = Inr q"
       "verify_loop (?L ! 0 ! nat i) q = last ?L ! nat (i div 2 ^ ?d)"
    by auto
  have "length ls \<le> 2 ^ ?d"
    using le_two_power_ceillog2 [of "length ls"] by (simp add: length_upper_levels)
  with i0 i1 have "i div 2 ^ ?d = 0"
    by (intro div_pos_pos_trivial) (simp, metis of_nat_le_iff of_nat_numeral of_nat_power order_less_le_trans)
  moreover have "length (last ?L) = 1" using ne by (intro last_level_single) simp
  then have "last ?L ! 0 = hd (last ?L)" by (cases "last ?L") auto
  ultimately have root: "verify_loop (?L ! 0 ! nat i) q = hd (last ?L)" using q(2) by simp
  have leaf: "?L ! 0 ! nat i = hash (ls ! nat i)" using i0 i1 by simp
  have item: "py_getitem ls i = Inr (ls ! nat i)" using i0 i1 by (simp add: py_getitem_def)
  have gr: "get_root t = Inr (hd (last ?L))"
    unfolding t using ne by (intro get_root_levels) simp
  have "verify_proof t (ls ! nat i) q = Inr True"
    using root leaf gr by (simp add: verify_proof_def)
  moreover have "get_proof t i = Inr q" using q(1) by (simp add: get_proof_def t)
  ultimately show ?thesis using init item by (simp add: open_verify_def)
qed

text \<open>
  The loops on trees of three levels, with the digests as variables.
\<close>

lemma open_verify3:
  "open_verify [a, b, c] 2 =
     Some (Inr (hash (hash (hash a @ hash b) @ hash c)
                = hash (hash (hash a @ hash b) @ hash (hash c @ hash c))))"
  by (simp add: open_verify_def init3 get_proof_def get_proof_loop.simps py_getitem_def
      verify_proof_def get_root_def)

lemma get_proof3:
  "get_proof \<lparr>leaves = ls, tree = [[a, b, c], [ab, cc], [r]]\<rparr> 2 = Inr [(''left'', ab)]"
  by (simp add: get_proof_def get_proof_loop.simps py_getitem_def)

lemma verify_proof3:
  "verify_proof \<lparr>leaves = ls, tree = [[a, b, c], [ab, cc], [r]]\<rparr> leaf [(''left'', ab)]
     = Inr (hash (ab @ hash leaf) = r)"
  by (simp add: verify_proof_def get_root_def py_getitem_def)

lemma get_proof4:
  "get_proof \<lparr>leaves = ls, tree = [[a, b, c, d], [ab, cd], [r]]\<rparr> 1
     = Inr [(''left'', a), (''right'', cd)]"
  by (simp add: get_proof_def get_proof_loop.simps py_getitem_def)

lemma verify_proof4:
  "verify_proof \<lparr>leaves = ls, tree = [[a, b, c, d], [ab, cd], [r]]\<rparr> leaf
       [(''left'', a), (''right'', cd)]
     = Inr (hash (hash (a @ hash leaf) @ cd) = r)"
  by (simp add: verify_proof_def get_root_def py_getitem_def)

section \<open>Digests computed in the logic\<close>

text \<open>
  Each digest below is computed by rewriting with the definitions of the SHA-256 section.
  The first is the one-block example of FIPS 180-4.
\<close>

lemma hash_abc: "hash ''abc'' = ''ba7816bf8f01cfea414140de5dae2223b00361a396177a9cb410ff61f20015ad''"
  by code_simp

lemma hash_A: "hash ''A'' = ''559aead08264d5795d3909718cdd05abd49572e84fe55590eef31a88a08fdffd''"
  by code_simp

lemma hash_B: "hash ''B'' = ''df7e70e5021544f4834bbee64a9e3789febc4be81470df629cad6ddb03320a5c''"
  by code_simp

lemma hash_C: "hash ''C'' = ''6b23c0d5f35d1b11f9b683f0b0a617355deb11277d91ae091d399c655b87940d''"
  by code_simp

lemma hash_D: "hash ''D'' = ''3f39d5c348e5b79d06e842c114e6cc571583bbf44e4b0ebfda1a01ec05745d43''"
  by code_simp

lemma hash_AB:
  "hash (''559aead08264d5795d3909718cdd05abd49572e84fe55590eef31a88a08fdffd''
       @ ''df7e70e5021544f4834bbee64a9e3789febc4be81470df629cad6ddb03320a5c'')
   = ''b30ab174f7459cdd40a3acdf15d0c9444fec2adcfb9d579aa154c084885edd0a''"
  by code_simp

lemma hash_CD:
  "hash (''6b23c0d5f35d1b11f9b683f0b0a617355deb11277d91ae091d399c655b87940d''
       @ ''3f39d5c348e5b79d06e842c114e6cc571583bbf44e4b0ebfda1a01ec05745d43'')
   = ''26b5aabe804fe5d533c663dea833e8078188376ce5ca2b5c3371d09ef6b0657b''"
  by code_simp

lemma hash_CC:
  "hash (''6b23c0d5f35d1b11f9b683f0b0a617355deb11277d91ae091d399c655b87940d''
       @ ''6b23c0d5f35d1b11f9b683f0b0a617355deb11277d91ae091d399c655b87940d'')
   = ''84a3defdb78365472865549822bb4e2fc0a1d50a9a73199251e0320dff0cef03''"
  by code_simp

lemma hash_AB_CD:
  "hash (''b30ab174f7459cdd40a3acdf15d0c9444fec2adcfb9d579aa154c084885edd0a''
       @ ''26b5aabe804fe5d533c663dea833e8078188376ce5ca2b5c3371d09ef6b0657b'')
   = ''50a504831bd50fee3581d287168a85a8dcdd6aa777ffd0fe35e37290268a0153''"
  by code_simp

lemma hash_AB_CC:
  "hash (''b30ab174f7459cdd40a3acdf15d0c9444fec2adcfb9d579aa154c084885edd0a''
       @ ''84a3defdb78365472865549822bb4e2fc0a1d50a9a73199251e0320dff0cef03'')
   = ''bd144551df2d311a947adbb0fc4b4bfa7bd76ae0e60095d88a8f79a3e3986af6''"
  by code_simp

lemma hash_AB_C:
  "hash (''b30ab174f7459cdd40a3acdf15d0c9444fec2adcfb9d579aa154c084885edd0a''
       @ ''6b23c0d5f35d1b11f9b683f0b0a617355deb11277d91ae091d399c655b87940d'')
   = ''759051182630ccfb413782a23a83b6a5dd1cdd80b8ceacd4ed157e5eff4f2659''"
  by code_simp

lemma init_ABC: "MerkleTree_init [''A'', ''B'', ''C''] = Some tree_ABC"
  unfolding init3 tree_ABC_def hash_A hash_B hash_C hash_AB hash_CC hash_AB_CC ..

lemma init_ABCD: "MerkleTree_init [''A'', ''B'', ''C'', ''D''] = Some tree_ABCD"
  unfolding init4 tree_ABCD_def hash_A hash_B hash_C hash_D hash_AB hash_CD hash_AB_CD ..

text \<open>
  The notebook's recorded run: the proof printed for leaf B of the tree over A, B, C, D,
  and \<^verbatim>\<open>Proof is valid: True\<close>. The two digests are those of the notebook's output.
\<close>

lemma notebook_run:
  "MerkleTree_init [''A'', ''B'', ''C'', ''D''] = Some tree_ABCD
   \<and> get_proof tree_ABCD 1
        = Inr [(''left'', ''559aead08264d5795d3909718cdd05abd49572e84fe55590eef31a88a08fdffd''),
               (''right'', ''26b5aabe804fe5d533c663dea833e8078188376ce5ca2b5c3371d09ef6b0657b'')]
   \<and> verify_proof tree_ABCD ''B''
        [(''left'', ''559aead08264d5795d3909718cdd05abd49572e84fe55590eef31a88a08fdffd''),
         (''right'', ''26b5aabe804fe5d533c663dea833e8078188376ce5ca2b5c3371d09ef6b0657b'')]
        = Inr True"
proof -
  have "get_proof tree_ABCD 1
        = Inr [(''left'', ''559aead08264d5795d3909718cdd05abd49572e84fe55590eef31a88a08fdffd''),
               (''right'', ''26b5aabe804fe5d533c663dea833e8078188376ce5ca2b5c3371d09ef6b0657b'')]"
    unfolding tree_ABCD_def by (rule get_proof4)
  moreover have "verify_proof tree_ABCD ''B''
        [(''left'', ''559aead08264d5795d3909718cdd05abd49572e84fe55590eef31a88a08fdffd''),
         (''right'', ''26b5aabe804fe5d533c663dea833e8078188376ce5ca2b5c3371d09ef6b0657b'')]
        = Inr (''50a504831bd50fee3581d287168a85a8dcdd6aa777ffd0fe35e37290268a0153''
                = ''50a504831bd50fee3581d287168a85a8dcdd6aa777ffd0fe35e37290268a0153'')"
    unfolding tree_ABCD_def verify_proof4 hash_B hash_AB hash_AB_CD ..
  ultimately show ?thesis using init_ABCD by simp
qed

section \<open>The properties of the specification, checked against the code\<close>

text \<open>
  C1, at the failing input. For the leaves A, B, C the constructor builds the tree,
  \<^verbatim>\<open>get_proof(2)\<close> returns a proof, and \<^verbatim>\<open>verify_proof("C", proof)\<close> returns false:
  \<^verbatim>\<open>build_tree\<close> hashed the unpaired digest of C with itself, and \<^verbatim>\<open>get_proof\<close>
  recorded nothing for that level. (On every path that avoids the unpaired nodes the round
  trip succeeds: \<open>round_trip_when_paired\<close>.)
\<close>

theorem round_trip_fails_for_unpaired_leaf:
  "open_verify [''A'', ''B'', ''C''] 2 = Some (Inr False)"
proof -
  have "open_verify [''A'', ''B'', ''C''] 2 =
     Some (Inr (''759051182630ccfb413782a23a83b6a5dd1cdd80b8ceacd4ed157e5eff4f2659''
              = ''bd144551df2d311a947adbb0fc4b4bfa7bd76ae0e60095d88a8f79a3e3986af6''))"
    unfolding open_verify3 hash_A hash_B hash_C hash_AB hash_CC hash_AB_CC hash_AB_C ..
  then show ?thesis by simp
qed

text \<open>
  C2, at the failing input. In the tree over A, B, C, level 0 has odd length. The proof of
  its last leaf has a single entry, the left sibling at level 1; it has no entry for
  level 0, none of its digests is the digest of C, and verification of C with it fails.
\<close>

theorem unpaired_leaf_proof_lacks_own_digest:
  "MerkleTree_init [''A'', ''B'', ''C''] = Some tree_ABC
   \<and> get_proof tree_ABC 2
        = Inr [(''left'', ''b30ab174f7459cdd40a3acdf15d0c9444fec2adcfb9d579aa154c084885edd0a'')]
   \<and> hash ''C'' = ''6b23c0d5f35d1b11f9b683f0b0a617355deb11277d91ae091d399c655b87940d''
   \<and> verify_proof tree_ABC ''C''
        [(''left'', ''b30ab174f7459cdd40a3acdf15d0c9444fec2adcfb9d579aa154c084885edd0a'')]
        = Inr False"
proof -
  have "verify_proof tree_ABC ''C''
        [(''left'', ''b30ab174f7459cdd40a3acdf15d0c9444fec2adcfb9d579aa154c084885edd0a'')]
      = Inr (''759051182630ccfb413782a23a83b6a5dd1cdd80b8ceacd4ed157e5eff4f2659''
              = ''bd144551df2d311a947adbb0fc4b4bfa7bd76ae0e60095d88a8f79a3e3986af6'')"
    unfolding tree_ABC_def verify_proof3 hash_C hash_AB_C ..
  then have "verify_proof tree_ABC ''C''
        [(''left'', ''b30ab174f7459cdd40a3acdf15d0c9444fec2adcfb9d579aa154c084885edd0a'')]
      = Inr False" by simp
  moreover have "get_proof tree_ABC 2
        = Inr [(''left'', ''b30ab174f7459cdd40a3acdf15d0c9444fec2adcfb9d579aa154c084885edd0a'')]"
    unfolding tree_ABC_def by (rule get_proof3)
  ultimately show ?thesis using init_ABC hash_C by blast
qed

text \<open>
  C3, as stated, fails: \<^verbatim>\<open>verify_proof\<close> does not look at the length of the proof. In the
  tree over A and B there is one level below the root, and the empty proof is accepted for
  the string made of the two leaf digests.
\<close>

theorem short_proof_accepted:
  "MerkleTree_init [''A'', ''B''] =
      Some \<lparr>leaves = [hash ''A'', hash ''B''],
            tree = [[hash ''A'', hash ''B''], [hash (hash ''A'' @ hash ''B'')]]\<rparr>
   \<and> verify_proof \<lparr>leaves = [hash ''A'', hash ''B''],
            tree = [[hash ''A'', hash ''B''], [hash (hash ''A'' @ hash ''B'')]]\<rparr>
         (hash ''A'' @ hash ''B'') [] = Inr True
   \<and> length ([] :: merkle_proof)
        < length (tree \<lparr>leaves = [hash ''A'', hash ''B''],
            tree = [[hash ''A'', hash ''B''], [hash (hash ''A'' @ hash ''B'')]]\<rparr>) - 1"
  by (simp add: init2 verify_proof_def get_root_def py_getitem_def)

text \<open>
  C3, amended. \<^verbatim>\<open>verify_proof\<close> accepts a proof of any length whose recomputed digest is
  the root: for every tree over at least two leaves, the empty proof, shorter than the
  number of levels below the root, is accepted for the string made of the two digests
  under the root.
\<close>

theorem verify_proof_ignores_length:
  assumes "2 \<le> length ls"
  shows "\<exists>t. MerkleTree_init ls = Some t
           \<and> length ([] :: merkle_proof) < length (tree t) - 1
           \<and> verify_proof t (concat (tree t ! (length (tree t) - 2))) [] = Inr True"
proof -
  let ?lvl = "map hash ls"
  let ?t = "\<lparr>leaves = ?lvl, tree = ?lvl # upper_levels ?lvl\<rparr>"
  from assms have ne: "ls \<noteq> []" by auto
  then have init: "MerkleTree_init ls = Some ?t" by (rule MerkleTree_init_Some)
  from assms have "2 \<le> length ?lvl" by simp
  from top_two_levels [OF this] obtain a b where
    ab: "(?lvl # upper_levels ?lvl) ! (length (upper_levels ?lvl) - 1) = [a, b]"
        "last (?lvl # upper_levels ?lvl) = [hash (a @ b)]"
        "upper_levels ?lvl \<noteq> []" by blast
  from ne have "get_root ?t = Inr (hd (last (?lvl # upper_levels ?lvl)))"
    by (simp add: get_root_levels)
  with ab(2) have root: "get_root ?t = Inr (hash (a @ b))" by simp
  have idx: "length (tree ?t) - 2 = length (upper_levels ?lvl) - 1" by simp
  have "verify_proof ?t (concat (tree ?t ! (length (tree ?t) - 2))) [] = Inr True"
    unfolding idx using ab(1) root by (simp add: verify_proof_def)
  moreover from ab(3) have "length ([] :: merkle_proof) < length (tree ?t) - 1" by simp
  ultimately show ?thesis using init by blast
qed

theorem verify_proof_ignores_length_witness:
  "2 \<le> length [''A'', ''B'']
   \<and> (\<exists>t. MerkleTree_init [''A'', ''B''] = Some t
           \<and> length ([] :: merkle_proof) < length (tree t) - 1
           \<and> verify_proof t (concat (tree t ! (length (tree t) - 2))) [] = Inr True)"
  using verify_proof_ignores_length [of "[''A'', ''B'']"] by simp

text \<open>
  C4. For every tree, leaf and proof, \<^verbatim>\<open>verify_proof\<close> starts from the digest of the
  leaf, folds over the proof in order (sibling first when the side is \<open>left\<close>, current
  digest first otherwise) and returns whether the result equals the root. When
  \<^verbatim>\<open>get_root\<close> raises, so does \<^verbatim>\<open>verify_proof\<close>.
\<close>

theorem verify_proof_is_fold:
  "verify_proof t leaf proof =
     (case get_root t of Inl e \<Rightarrow> Inl e | Inr r \<Rightarrow> Inr (verify_fold r leaf proof))"
proof -
  have loop: "verify_loop cur p = foldl fold_step cur p" for cur p
  proof (induction cur p rule: verify_loop.induct)
    case (1 current_hash)
    show ?case by simp
  next
    case (2 current_hash position sibling_hash rest)
    then show ?case by (simp add: fold_step_def)
  qed
  show ?thesis
    by (cases "get_root t") (simp_all add: verify_proof_def verify_fold_def loop)
qed

text \<open>
  C5. For every non-empty list of leaves the constructor returns a tree; level 0 is the list
  of leaf digests; each level above has half as many digests as the one below, rounded up;
  no level below the top has exactly one digest and the top level has exactly one, the
  root; the number of levels above level 0 is the ceiling of the binary logarithm of the
  number of leaves.
\<close>

theorem tree_level_invariant:
  assumes "ls \<noteq> []"
  shows "\<exists>t. MerkleTree_init ls = Some t
           \<and> tree t \<noteq> [] \<and> hd (tree t) = map hash ls
           \<and> (\<forall>k. k + 1 < length (tree t) \<longrightarrow>
                  int (length (tree t ! (k + 1))) = \<lceil>real (length (tree t ! k)) / 2\<rceil>
                  \<and> length (tree t ! k) \<noteq> 1)
           \<and> length (last (tree t)) = 1
           \<and> get_root t = Inr (hd (last (tree t)))
           \<and> int (length (tree t) - 1) = \<lceil>log 2 (real (length ls))\<rceil>"
proof -
  let ?lvl = "map hash ls"
  let ?t = "\<lparr>leaves = ?lvl, tree = ?lvl # upper_levels ?lvl\<rparr>"
  from assms have ne: "?lvl \<noteq> []" by simp
  have init: "MerkleTree_init ls = Some ?t" using assms by (rule MerkleTree_init_Some)
  have adj: "\<forall>k. k + 1 < length (tree ?t) \<longrightarrow>
      int (length (tree ?t ! (k + 1))) = \<lceil>real (length (tree ?t ! k)) / 2\<rceil>
      \<and> length (tree ?t ! k) \<noteq> 1"
  proof (intro allI impI)
    fix k assume "k + 1 < length (tree ?t)"
    then have "k + 1 < length (?lvl # upper_levels ?lvl)" by simp
    from levels_adjacent [OF this]
    have "(?lvl # upper_levels ?lvl) ! (k + 1) = pair_up ((?lvl # upper_levels ?lvl) ! k)"
      and "2 \<le> length ((?lvl # upper_levels ?lvl) ! k)" by simp_all
    then have "length (tree ?t ! (k + 1)) = (length (tree ?t ! k) + 1) div 2"
      and "length (tree ?t ! k) \<noteq> 1" by (simp_all add: length_pair_up)
    then show "int (length (tree ?t ! (k + 1))) = \<lceil>real (length (tree ?t ! k)) / 2\<rceil>
      \<and> length (tree ?t ! k) \<noteq> 1" by (simp only: ceiling_half) simp
  qed
  have top: "length (last (tree ?t)) = 1" using last_level_single [OF ne] by simp
  have root: "get_root ?t = Inr (hd (last (tree ?t)))" using get_root_levels [OF ne] by simp
  have "length (tree ?t) - 1 = ceillog2 (length ls)" by (simp add: length_upper_levels)
  then have "length (tree ?t) - 1 = nat \<lceil>log 2 (real (length ls))\<rceil>"
    using assms by (simp add: ceillog2_def)
  moreover have "1 \<le> real (length ls)" using assms by (cases ls) auto
  then have "0 \<le> log 2 (real (length ls))"
    by (intro iffD2 [OF zero_le_log_cancel_iff]) linarith+
  then have "0 \<le> \<lceil>log 2 (real (length ls))\<rceil>" by linarith
  ultimately have depth: "int (length (tree ?t) - 1) = \<lceil>log 2 (real (length ls))\<rceil>"
    by linarith
  have "tree ?t \<noteq> []" "hd (tree ?t) = map hash ls" by simp_all
  with init adj top root depth show ?thesis by blast
qed

text \<open>
  The invariant at the three leaves A, B, C, with the condition on \<open>k\<close> met at level 0.
\<close>

theorem tree_level_invariant_witness:
  "[''A'', ''B'', ''C''] \<noteq> []
   \<and> (\<exists>t. MerkleTree_init [''A'', ''B'', ''C''] = Some t
           \<and> 0 + 1 < length (tree t)
           \<and> int (length (tree t ! (0 + 1))) = \<lceil>real (length (tree t ! 0)) / 2\<rceil>
           \<and> length (tree t ! 0) \<noteq> 1
           \<and> length (last (tree t)) = 1
           \<and> int (length (tree t) - 1) = \<lceil>log 2 (real (length [''A'', ''B'', ''C'']))\<rceil>)"
proof -
  have ne: "[''A'', ''B'', ''C''] \<noteq> []" by simp
  from tree_level_invariant [OF ne] obtain t where
    t: "MerkleTree_init [''A'', ''B'', ''C''] = Some t"
       "\<forall>k. k + 1 < length (tree t) \<longrightarrow>
            int (length (tree t ! (k + 1))) = \<lceil>real (length (tree t ! k)) / 2\<rceil>
            \<and> length (tree t ! k) \<noteq> 1"
       "length (last (tree t)) = 1"
       "int (length (tree t) - 1) = \<lceil>log 2 (real (length [''A'', ''B'', ''C'']))\<rceil>"
    by blast
  from t(1) have "length (tree t) = 3" by (auto simp: init3)
  then have "0 + 1 < length (tree t)" by simp
  with t show ?thesis by blast
qed

text \<open>
  C7, as stated, fails: on the empty list of leaves the constructor signals no error. The
  level passed to \<^verbatim>\<open>build_tree\<close> is empty, its length is not 1, the next level is
  empty again, and the call never returns (CPython cuts the recursion off with
  \<^verbatim>\<open>RecursionError\<close>).
\<close>

theorem empty_input_does_not_return: "MerkleTree_init [] = None"
  by (rule MerkleTree_init_Nil)

text \<open>
  C7, amended. The constructor produces a tree exactly when the list of leaves is not
  empty; for the empty list it produces none, and the code designates no error for it.
\<close>

theorem init_returns_iff_nonempty: "(MerkleTree_init ls = None) = (ls = [])"
  by (cases "ls = []") (simp_all add: MerkleTree_init_Nil MerkleTree_init_Some)

text \<open>
  C8, as stated, fails: in the tree over A and B, \<^verbatim>\<open>get_proof(2)\<close> returns the empty
  proof and signals nothing.
\<close>

theorem get_proof_beyond_range_returns:
  "MerkleTree_init [''A'', ''B''] =
      Some \<lparr>leaves = [hash ''A'', hash ''B''],
            tree = [[hash ''A'', hash ''B''], [hash (hash ''A'' @ hash ''B'')]]\<rparr>
   \<and> get_proof \<lparr>leaves = [hash ''A'', hash ''B''],
            tree = [[hash ''A'', hash ''B''], [hash (hash ''A'' @ hash ''B'')]]\<rparr> 2 = Inr []"
  by (simp add: init2 get_proof_def get_proof_loop.simps)

text \<open>
  C8, amended. \<^verbatim>\<open>get_proof\<close> has no range check: for every tree over \<open>n \<ge> 1\<close> leaves
  and every index from \<open>n\<close> on it returns a proof and signals no error.
\<close>

theorem get_proof_no_range_check:
  assumes "ls \<noteq> []" and "int (length ls) \<le> leaf_index"
  shows "\<exists>t p. MerkleTree_init ls = Some t \<and> get_proof t leaf_index = Inr p"
proof -
  from assms(2) have "0 \<le> leaf_index" by simp
  from get_proof_loop_nonneg [OF this] show ?thesis
    using assms(1) unfolding get_proof_def by (metis MerkleTree_init_Some)
qed

theorem get_proof_no_range_check_witness:
  "[''A'', ''B''] \<noteq> [] \<and> int (length [''A'', ''B'']) \<le> 2
   \<and> (\<exists>t p. MerkleTree_init [''A'', ''B''] = Some t \<and> get_proof t 2 = Inr p)"
  using get_proof_no_range_check [of "[''A'', ''B'']" 2] by simp

text \<open>
  C9. A commitment over exactly one leaf: the constructor returns the tree whose only level
  is the leaf's digest, the root is that digest, \<^verbatim>\<open>get_proof(0)\<close> is the empty proof, and
  the leaf verifies with the empty proof.
\<close>

theorem single_leaf_commitment:
  "MerkleTree_init [x] = Some \<lparr>leaves = [hash x], tree = [[hash x]]\<rparr>
   \<and> get_root \<lparr>leaves = [hash x], tree = [[hash x]]\<rparr> = Inr (hash x)
   \<and> get_proof \<lparr>leaves = [hash x], tree = [[hash x]]\<rparr> 0 = Inr []
   \<and> verify_proof \<lparr>leaves = [hash x], tree = [[hash x]]\<rparr> x [] = Inr True"
  by (simp add: init1 get_root_def py_getitem_def get_proof_def get_proof_loop.simps verify_proof_def)

text \<open>
  C10. For every list of leaves of odd length at least 3, the tree over the list and the
  tree over the list with its last leaf appended once more have the same root, although
  the second has one leaf more.
\<close>

theorem duplicate_last_leaf_same_root:
  assumes "odd (length ls)" and "3 \<le> length ls"
  shows "\<exists>t t' r. MerkleTree_init ls = Some t
            \<and> MerkleTree_init (ls @ [last ls]) = Some t'
            \<and> get_root t = Inr r \<and> get_root t' = Inr r
            \<and> length (leaves t') = length (leaves t) + 1"
proof -
  let ?a = "map hash ls" and ?b = "map hash (ls @ [last ls])"
  from assms(2) have ne: "ls \<noteq> []" by auto
  then have b: "?b = ?a @ [last ?a]" by (simp add: last_map)
  from assms(1) have "pair_up ?b = pair_up ?a" unfolding b by (simp add: pair_up_dup_last)
  moreover from assms(2) have "2 \<le> length ?a" "2 \<le> length ?b" by simp_all
  ultimately have up: "upper_levels ?b = upper_levels ?a" "upper_levels ?a \<noteq> []"
    by (simp_all add: upper_levels_step)
  have ra: "get_root \<lparr>leaves = ?a, tree = ?a # upper_levels ?a\<rparr> = Inr (hd (last (upper_levels ?a)))"
    using ne up(2) by (simp add: get_root_levels)
  have rb: "get_root \<lparr>leaves = ?b, tree = ?b # upper_levels ?b\<rparr> = Inr (hd (last (upper_levels ?a)))"
    using get_root_levels [of ?b] up by simp
  have "MerkleTree_init ls = Some \<lparr>leaves = ?a, tree = ?a # upper_levels ?a\<rparr>"
    using ne by (rule MerkleTree_init_Some)
  moreover have "MerkleTree_init (ls @ [last ls]) = Some \<lparr>leaves = ?b, tree = ?b # upper_levels ?b\<rparr>"
    by (rule MerkleTree_init_Some) simp
  ultimately show ?thesis using ra rb by (intro exI conjI) (assumption | simp)+
qed

theorem duplicate_last_leaf_same_root_witness:
  "odd (length [''A'', ''B'', ''C'']) \<and> 3 \<le> length [''A'', ''B'', ''C'']
   \<and> (\<exists>t t' r. MerkleTree_init [''A'', ''B'', ''C''] = Some t
            \<and> MerkleTree_init [''A'', ''B'', ''C'', ''C''] = Some t'
            \<and> get_root t = Inr r \<and> get_root t' = Inr r
            \<and> length (leaves t') = length (leaves t) + 1)"
  using duplicate_last_leaf_same_root [of "[''A'', ''B'', ''C'']"] by simp

end
